theory Spec2Isabelle
  imports Main "HOL-Library.Word"
begin

unbundle bit_operations_syntax

section \<open>The sequence counter and the atomic built-ins\<close>

text \<open>
  \<^verbatim>\<open>typedef unsigned int kroki_seqlock_t;\<close> (seqlock.h, line 70): an unsigned
  integer of 32 bits, whose arithmetic wraps around at \<open>2 ^ 32\<close>.
\<close>

type_synonym kroki_seqlock_t = "32 word"

text \<open>The memory-order arguments that the header passes to the GCC built-ins.\<close>

datatype memorder = ATOMIC_RELAXED | ATOMIC_ACQUIRE | ATOMIC_RELEASE | ATOMIC_ACQ_REL

text \<open>
  What a thread does to the counter, one entry per built-in call, in program order:
  \<^item> \<open>Load mo v\<close>: \<^verbatim>\<open>__atomic_load_n(plock, mo)\<close> returned \<open>v\<close>;
  \<^item> \<open>Store mo v\<close>: \<^verbatim>\<open>__atomic_store_n(plock, v, mo)\<close>;
  \<^item> \<open>CmpXchg weak smo fmo e d ok\<close>:
    \<^verbatim>\<open>__atomic_compare_exchange_n(plock, &e, d, weak, smo, fmo)\<close> returned \<open>ok\<close>;
  \<^item> \<open>SignalFence mo\<close>: \<^verbatim>\<open>__atomic_signal_fence(mo)\<close>, a compiler barrier;
  \<^item> \<open>Ia32Pause\<close>: \<^verbatim>\<open>__builtin_ia32_pause()\<close>;
  \<^item> \<open>Body old\<close>: the caller's code between \<^verbatim>\<open>read_lock\<close> and
    \<^verbatim>\<open>read_unlock\<close> ran once, with \<^verbatim>\<open>_kroki_seqlock_old = old\<close>.
\<close>

datatype event =
    Load memorder kroki_seqlock_t
  | Store memorder kroki_seqlock_t
  | CmpXchg bool memorder memorder kroki_seqlock_t kroki_seqlock_t bool
  | SignalFence memorder
  | Ia32Pause
  | Body kroki_seqlock_t

text \<open>
  The memory a thread works on: the counter \<open>*plock\<close> and the log of what the thread
  has done to it so far.
\<close>

record mem =
  plock :: kroki_seqlock_t
  trace :: "event list"

definition atomic_load_n :: "memorder \<Rightarrow> mem \<Rightarrow> kroki_seqlock_t \<times> mem" where
  "atomic_load_n mo m = (plock m, m\<lparr>trace := trace m @ [Load mo (plock m)]\<rparr>)"

definition atomic_store_n :: "kroki_seqlock_t \<Rightarrow> memorder \<Rightarrow> mem \<Rightarrow> mem" where
  "atomic_store_n v mo m = m\<lparr>plock := v, trace := trace m @ [Store mo v]\<rparr>"

text \<open>
  \<^verbatim>\<open>__atomic_compare_exchange_n(plock, &expected, desired, weak, smo, fmo)\<close>: when
  \<open>*plock = expected\<close> it writes \<open>desired\<close> and returns true; otherwise it writes the
  current \<open>*plock\<close> into \<open>expected\<close> and returns false. A weak exchange may also fail
  although the values are equal; \<open>spurious\<close> says whether this call does. The result is
  the returned flag, the new \<open>expected\<close> and the new memory.
\<close>

definition atomic_compare_exchange_n ::
  "bool \<Rightarrow> kroki_seqlock_t \<Rightarrow> kroki_seqlock_t \<Rightarrow> bool \<Rightarrow> memorder \<Rightarrow> memorder \<Rightarrow> mem
    \<Rightarrow> bool \<times> kroki_seqlock_t \<times> mem" where
  "atomic_compare_exchange_n spurious expected desired weak smo fmo m =
     (if plock m = expected \<and> \<not> (weak \<and> spurious)
      then (True, expected,
            m\<lparr>plock := desired,
              trace := trace m @ [CmpXchg weak smo fmo expected desired True]\<rparr>)
      else (False, plock m,
            m\<lparr>trace := trace m @ [CmpXchg weak smo fmo expected desired False]\<rparr>))"

definition atomic_signal_fence :: "memorder \<Rightarrow> mem \<Rightarrow> mem" where
  "atomic_signal_fence mo m = m\<lparr>trace := trace m @ [SignalFence mo]\<rparr>"

text \<open>
  \<^verbatim>\<open>_kroki_seqlock_pause()\<close> (lines 161-165) is \<^verbatim>\<open>__builtin_ia32_pause()\<close> when
  \<^verbatim>\<open>__i686__\<close> or \<^verbatim>\<open>__x86_64__\<close> is defined, and expands to nothing otherwise.
\<close>

datatype arch = X86 | Other_arch

definition kroki_seqlock_pause :: "arch \<Rightarrow> mem \<Rightarrow> mem" where
  "kroki_seqlock_pause a m = (if a = X86 then m\<lparr>trace := trace m @ [Ia32Pause]\<rparr> else m)"

section \<open>The writer with no competitor\<close>

text \<open>
  \<^verbatim>\<open>kroki_seqlock_write_lock(plock)\<close> (lines 84-93). The result is the local
  \<^verbatim>\<open>_kroki_seqlock_old\<close> and the memory.
\<close>

definition kroki_seqlock_write_lock :: "mem \<Rightarrow> kroki_seqlock_t \<times> mem" where
  "kroki_seqlock_write_lock m =
     (let (old, m1) = atomic_load_n ATOMIC_RELAXED m;
          m2 = atomic_store_n (old + 1) ATOMIC_RELAXED m1;
          m3 = atomic_store_n (old + 1) ATOMIC_RELEASE m2;
          m4 = atomic_signal_fence ATOMIC_ACQ_REL m3
      in (old, m4))"

text \<open>\<^verbatim>\<open>kroki_seqlock_write_unlock(plock)\<close> (lines 121-125), given the local \<open>old\<close>.\<close>

definition kroki_seqlock_write_unlock :: "kroki_seqlock_t \<Rightarrow> mem \<Rightarrow> mem" where
  "kroki_seqlock_write_unlock old m = atomic_store_n (old + 2) ATOMIC_RELEASE m"

text \<open>
  A whole write section of one writer on its own: lock, the caller's writes (which do not
  touch the counter), unlock.
\<close>

definition write_section :: "mem \<Rightarrow> mem" where
  "write_section m = (let (old, m') = kroki_seqlock_write_lock m in kroki_seqlock_write_unlock old m')"

text \<open>The values written to the counter, in order.\<close>

fun stored :: "event list \<Rightarrow> kroki_seqlock_t list" where
  "stored [] = []"
| "stored (Store mo v # es) = v # stored es"
| "stored (CmpXchg w smo fmo e d ok # es) = (if ok then d # stored es else stored es)"
| "stored (_ # es) = stored es"

section \<open>A thread among others\<close>

text \<open>
  Between two accesses of one thread the other threads may have changed the counter. For
  the loops below, \<open>env k\<close> is the value that the counter holds when the thread makes its
  \<open>k\<close>-th access to it (counting from 0), whatever the other threads did before.
\<close>

definition at_access :: "(nat \<Rightarrow> kroki_seqlock_t) \<Rightarrow> nat \<Rightarrow> mem \<Rightarrow> mem" where
  "at_access env k m = m\<lparr>plock := env k\<rparr>"

section \<open>The spinning writer\<close>

text \<open>
  The expression \<^verbatim>\<open>(__atomic_load_n(plock, __ATOMIC_RELAXED) + 1) & ~1\<close> of lines 105
  and 117, on the loaded value.
\<close>

definition spin_expected :: "kroki_seqlock_t \<Rightarrow> kroki_seqlock_t" where
  "spin_expected v = (v + 1) AND NOT 1"

text \<open>
  The \<^verbatim>\<open>while\<close> loop of \<^verbatim>\<open>kroki_seqlock_write_lock_spin\<close> (lines 106-118), entered
  at the thread's \<open>k\<close>-th access with the local \<^verbatim>\<open>_kroki_seqlock_old = old\<close>. The
  exchange is weak (fourth argument 1); \<open>spur k\<close> says whether the access \<open>k\<close>, being a
  weak exchange, fails spuriously. The loop has no bound: a run in which no exchange
  succeeds does not return, which is the value \<open>None\<close>. A run that returns gives the
  local \<open>old\<close>, the number of accesses made and the memory.
\<close>

partial_function (option) write_lock_spin_loop ::
  "arch \<Rightarrow> (nat \<Rightarrow> kroki_seqlock_t) \<Rightarrow> (nat \<Rightarrow> bool) \<Rightarrow> nat \<Rightarrow> kroki_seqlock_t \<Rightarrow> mem
    \<Rightarrow> (kroki_seqlock_t \<times> nat \<times> mem) option" where
  "write_lock_spin_loop a env spur k old m =
     (let (ok, old', m1) =
            atomic_compare_exchange_n (spur k) old (old + 1) True ATOMIC_ACQUIRE ATOMIC_RELAXED
              (at_access env k m)
      in if \<not> ok
         then (let m2 = kroki_seqlock_pause a m1;
                   (v, m3) = atomic_load_n ATOMIC_RELAXED (at_access env (k + 1) m2)
               in write_lock_spin_loop a env spur (k + 2) (spin_expected v) m3)
         else Some (old', k + 1, m1))"

declare write_lock_spin_loop.simps [code]

text \<open>\<^verbatim>\<open>kroki_seqlock_write_lock_spin(plock)\<close> (lines 101-119).\<close>

definition kroki_seqlock_write_lock_spin ::
  "arch \<Rightarrow> (nat \<Rightarrow> kroki_seqlock_t) \<Rightarrow> (nat \<Rightarrow> bool) \<Rightarrow> mem
    \<Rightarrow> (kroki_seqlock_t \<times> nat \<times> mem) option" where
  "kroki_seqlock_write_lock_spin a env spur m =
     (let (v, m1) = atomic_load_n ATOMIC_RELAXED (at_access env 0 m)
      in write_lock_spin_loop a env spur 1 (spin_expected v) m1)"

text \<open>
  The \<open>j\<close>-th attempt loads at access \<open>2 * j\<close> and exchanges at access \<open>2 * j + 1\<close>.
\<close>

definition cas_succeeds :: "(nat \<Rightarrow> kroki_seqlock_t) \<Rightarrow> (nat \<Rightarrow> bool) \<Rightarrow> nat \<Rightarrow> bool" where
  "cas_succeeds env spur j \<longleftrightarrow>
     env (2 * j + 1) = spin_expected (env (2 * j)) \<and> \<not> spur (2 * j + 1)"

definition pause_events :: "arch \<Rightarrow> event list" where
  "pause_events a = (if a = X86 then [Ia32Pause] else [])"

definition failed_attempt :: "arch \<Rightarrow> (nat \<Rightarrow> kroki_seqlock_t) \<Rightarrow> nat \<Rightarrow> event list" where
  "failed_attempt a env j =
     [Load ATOMIC_RELAXED (env (2 * j)),
      CmpXchg True ATOMIC_ACQUIRE ATOMIC_RELAXED
        (spin_expected (env (2 * j))) (spin_expected (env (2 * j)) + 1) False]
     @ pause_events a"

section \<open>The reader\<close>

text \<open>
  \<^verbatim>\<open>kroki_seqlock_read_lock(plock)\<close> (lines 127-137) declares the locals, loads
  \<^verbatim>\<open>_kroki_seqlock_new\<close> once and opens the \<^verbatim>\<open>do\<close> loop, whose first statement
  computes \<^verbatim>\<open>_kroki_seqlock_old\<close>. \<open>read_lock_load\<close> is the load in front of the loop,
  \<open>read_lock_baseline\<close> the statement at the head of the loop, and
  \<open>kroki_seqlock_read_lock\<close> what the macro has done when the caller's code first runs:
  the locals \<open>old\<close> and \<open>new\<close> and the memory.
\<close>

definition read_lock_load :: "mem \<Rightarrow> kroki_seqlock_t \<times> mem" where
  "read_lock_load m = atomic_load_n ATOMIC_ACQUIRE m"

definition read_lock_baseline :: "kroki_seqlock_t \<Rightarrow> kroki_seqlock_t" where
  "read_lock_baseline new = new AND NOT 1"

definition kroki_seqlock_read_lock :: "mem \<Rightarrow> kroki_seqlock_t \<times> kroki_seqlock_t \<times> mem" where
  "kroki_seqlock_read_lock m =
     (let (new, m1) = read_lock_load m in (read_lock_baseline new, new, m1))"

text \<open>
  The statements of \<^verbatim>\<open>kroki_seqlock_read_unlock(plock)\<close> inside the loop (lines
  151-154), made at the thread's accesses \<open>k\<close> and \<open>k + 1\<close>: the result is the local
  \<^verbatim>\<open>_kroki_seqlock_new\<close> and the memory.
\<close>

definition kroki_seqlock_read_unlock ::
  "(nat \<Rightarrow> kroki_seqlock_t) \<Rightarrow> nat \<Rightarrow> mem \<Rightarrow> kroki_seqlock_t \<times> mem" where
  "kroki_seqlock_read_unlock env k m =
     (let m1 = atomic_signal_fence ATOMIC_ACQ_REL m;
          (unused, m2) = atomic_load_n ATOMIC_ACQUIRE (at_access env k m1);
          (new, m3) = atomic_load_n ATOMIC_ACQUIRE (at_access env (k + 1) m2)
      in (new, m3))"

text \<open>
  The \<^verbatim>\<open>do ... while (old != new)\<close> loop that the two macros open and close (lines
  133-157), entered at the thread's \<open>k\<close>-th access with \<^verbatim>\<open>_kroki_seqlock_new = new\<close>,
  before the iteration number \<open>i\<close>. The caller's code between the macros is \<open>body\<close>: its
  \<open>i\<close>-th execution yields \<open>body i\<close> and is logged as \<open>Body old\<close>. The loop has no
  bound. A run that returns gives the last result of the body, the number of times the
  body ran, the number of accesses made and the memory.
\<close>

partial_function (option) read_loop ::
  "(nat \<Rightarrow> kroki_seqlock_t) \<Rightarrow> (nat \<Rightarrow> 'a) \<Rightarrow> nat \<Rightarrow> nat \<Rightarrow> kroki_seqlock_t \<Rightarrow> mem
    \<Rightarrow> ('a \<times> nat \<times> nat \<times> mem) option" where
  "read_loop env body k i new m =
     (let old = read_lock_baseline new;
          r = body i;
          m1 = m\<lparr>trace := trace m @ [Body old]\<rparr>;
          (new', m2) = kroki_seqlock_read_unlock env k m1
      in if old \<noteq> new' then read_loop env body (k + 2) (i + 1) new' m2
         else Some (r, i + 1, k + 2, m2))"

declare read_loop.simps [code]

text \<open>A whole read section: \<^verbatim>\<open>read_lock\<close>, the caller's code, \<^verbatim>\<open>read_unlock\<close>.\<close>

definition read_section ::
  "(nat \<Rightarrow> kroki_seqlock_t) \<Rightarrow> (nat \<Rightarrow> 'a) \<Rightarrow> mem \<Rightarrow> ('a \<times> nat \<times> nat \<times> mem) option" where
  "read_section env body m =
     (let (new, m1) = read_lock_load (at_access env 0 m)
      in read_loop env body 1 0 new m1)"

text \<open>
  The iteration \<open>j\<close> of a read section works from the value of access \<open>2 * j\<close> and
  compares it with the value of access \<open>2 * j + 2\<close>.
\<close>

definition check_passes :: "(nat \<Rightarrow> kroki_seqlock_t) \<Rightarrow> nat \<Rightarrow> bool" where
  "check_passes env j \<longleftrightarrow> read_lock_baseline (env (2 * j)) = env (2 * j + 2)"

definition iteration :: "(nat \<Rightarrow> kroki_seqlock_t) \<Rightarrow> nat \<Rightarrow> event list" where
  "iteration env j =
     [Body (read_lock_baseline (env (2 * j))),
      SignalFence ATOMIC_ACQ_REL,
      Load ATOMIC_ACQUIRE (env (2 * j + 1)),
      Load ATOMIC_ACQUIRE (env (2 * j + 2))]"

section \<open>Several spinning writers\<close>

text \<open>
  Any number of threads, each running \<^verbatim>\<open>kroki_seqlock_write_lock_spin(plock)\<close>, its
  own writes and \<^verbatim>\<open>kroki_seqlock_write_unlock(plock)\<close> once, on one counter. A thread
  is at one of these places:
  \<^item> \<open>W_load\<close>: before the load of line 105;
  \<^item> \<open>W_cas\<close>: before the exchange of lines 107-112;
  \<^item> \<open>W_pause\<close>: the exchange failed, before the pause and the load of lines 115-117;
  \<^item> \<open>W_inside\<close>: the exchange succeeded; the thread is between the two macros and its
    next access is the store of lines 122-123;
  \<^item> \<open>W_done\<close>: after \<^verbatim>\<open>write_unlock\<close>.
  The accesses to the counter are atomic, so the threads' accesses happen one after the
  other: one step is one access by one thread.
\<close>

datatype wpc = W_load | W_cas | W_pause | W_inside | W_done

record writer =
  pc :: wpc
  seqlock_old :: kroki_seqlock_t

definition writer_step :: "arch \<Rightarrow> bool \<Rightarrow> writer \<Rightarrow> mem \<Rightarrow> writer \<times> mem" where
  "writer_step a spurious w m =
     (case pc w of
        W_load \<Rightarrow>
          (let (v, m1) = atomic_load_n ATOMIC_RELAXED m
           in (\<lparr>pc = W_cas, seqlock_old = spin_expected v\<rparr>, m1))
      | W_cas \<Rightarrow>
          (let (ok, old', m1) =
                 atomic_compare_exchange_n spurious (seqlock_old w) (seqlock_old w + 1) True
                   ATOMIC_ACQUIRE ATOMIC_RELAXED m
           in (\<lparr>pc = (if \<not> ok then W_pause else W_inside), seqlock_old = old'\<rparr>, m1))
      | W_pause \<Rightarrow>
          (let m1 = kroki_seqlock_pause a m;
               (v, m2) = atomic_load_n ATOMIC_RELAXED m1
           in (\<lparr>pc = W_cas, seqlock_old = spin_expected v\<rparr>, m2))
      | W_inside \<Rightarrow>
          (w\<lparr>pc := W_done\<rparr>, kroki_seqlock_write_unlock (seqlock_old w) m)
      | W_done \<Rightarrow> (w, m))"

text \<open>
  The counter with the log of all accesses, and the threads. A schedule is a list of
  pairs \<open>(i, spurious)\<close>: the thread \<open>i\<close> makes its next access, and if that is a weak
  exchange, \<open>spurious\<close> says whether it fails spuriously. A thread number out of range
  does nothing.
\<close>

record config =
  shared :: mem
  threads :: "writer list"

definition step :: "arch \<Rightarrow> nat \<times> bool \<Rightarrow> config \<Rightarrow> config" where
  "step a e c =
     (case e of (i, spurious) \<Rightarrow>
        if i < length (threads c)
        then (let (w, m) = writer_step a spurious (threads c ! i) (shared c)
              in \<lparr>shared = m, threads = (threads c)[i := w]\<rparr>)
        else c)"

definition run :: "arch \<Rightarrow> (nat \<times> bool) list \<Rightarrow> config \<Rightarrow> config" where
  "run a sched c = fold (step a) sched c"

text \<open>\<open>n\<close> threads about to start, on a counter that holds \<open>c0\<close>.\<close>

definition init :: "kroki_seqlock_t \<Rightarrow> nat \<Rightarrow> config" where
  "init c0 n = \<lparr>shared = \<lparr>plock = c0, trace = []\<rparr>,
                threads = replicate n \<lparr>pc = W_load, seqlock_old = 0\<rparr>\<rparr>"

text \<open>The threads that are inside their critical section.\<close>

definition inside :: "writer \<Rightarrow> bool" where
  "inside w \<longleftrightarrow> pc w = W_inside"

definition holders :: "writer list \<Rightarrow> nat list" where
  "holders ws = filter (\<lambda>i. inside (ws ! i)) [0..<length ws]"

text \<open>The values \<open>vs\<close> are \<open>c0 + 1\<close>, \<open>c0 + 2\<close>, \<open>c0 + 3\<close> and so on, in this order.\<close>

definition consecutive :: "kroki_seqlock_t \<Rightarrow> kroki_seqlock_t list \<Rightarrow> bool" where
  "consecutive c0 vs \<longleftrightarrow> vs = map (\<lambda>k. c0 + of_nat k) [1..<Suc (length vs)]"

text \<open>What holds of every state that the threads can reach.\<close>

definition mutex_inv :: "config \<Rightarrow> bool" where
  "mutex_inv c \<longleftrightarrow>
     (\<forall>i<length (threads c). pc (threads c ! i) = W_cas \<longrightarrow> even (seqlock_old (threads c ! i))) \<and>
     (\<forall>i\<in>set (holders (threads c)).
          even (seqlock_old (threads c ! i)) \<and> plock (shared c) = seqlock_old (threads c ! i) + 1) \<and>
     (odd (plock (shared c)) \<longrightarrow> holders (threads c) \<noteq> []) \<and>
     (\<forall>i\<in>set (holders (threads c)). \<forall>j\<in>set (holders (threads c)). i = j)"

definition counted :: "kroki_seqlock_t \<Rightarrow> config \<Rightarrow> bool" where
  "counted c0 c \<longleftrightarrow>
     consecutive c0 (stored (trace (shared c))) \<and>
     plock (shared c) = c0 + of_nat (length (stored (trace (shared c))))"

section \<open>Parity and the low bit\<close>

lemma bit_and_not_1: "bit ((v::kroki_seqlock_t) AND - 2) n \<longleftrightarrow> bit v n \<and> n \<noteq> 0"
proof -
  have "bit (v AND NOT 1) n \<longleftrightarrow> bit v n \<and> n \<noteq> 0"
    by (auto simp add: bit_and_iff bit_not_iff bit_1_iff simp del: not_one_eq word_bitwise_1_simps
        dest: bit_imp_le_length)
  then show ?thesis by simp
qed

lemma and_not_1_even:
  assumes "even (v::kroki_seqlock_t)"
  shows "v AND - 2 = v"
proof (rule bit_word_eqI)
  fix n
  show "bit (v AND - 2) n \<longleftrightarrow> bit v n"
  proof (cases "n = 0")
    case True
    with assms show ?thesis by (simp add: bit_0 even_and_iff)
  next
    case False
    then show ?thesis by (simp add: bit_and_not_1)
  qed
qed

lemma and_not_1_odd:
  assumes "odd (v::kroki_seqlock_t)"
  shows "v AND - 2 = v - 1"
proof (rule bit_word_eqI)
  fix n
  show "bit (v AND - 2) n \<longleftrightarrow> bit (v - 1) n"
  proof (cases "n = 0")
    case True
    with assms show ?thesis by (simp add: bit_0 even_and_iff)
  next
    case False
    with assms show ?thesis by (simp add: bit_and_not_1 odd_bit_iff_bit_pred [of v n])
  qed
qed

lemma even_spin_expected: "even (spin_expected v)"
  by (simp add: spin_expected_def even_and_iff)

lemma spin_expected_even: "even v \<Longrightarrow> spin_expected v = v"
  by (simp add: spin_expected_def and_not_1_odd)

lemma spin_expected_odd: "odd v \<Longrightarrow> spin_expected v = v + 1"
  by (simp add: spin_expected_def and_not_1_even)

lemma even_read_lock_baseline: "even (read_lock_baseline v)"
  by (simp add: read_lock_baseline_def even_and_iff)

lemma read_lock_baseline_even: "even v \<Longrightarrow> read_lock_baseline v = v"
  by (simp add: read_lock_baseline_def and_not_1_even)

lemma read_lock_baseline_odd: "odd v \<Longrightarrow> read_lock_baseline v = v - 1"
  by (simp add: read_lock_baseline_def and_not_1_odd)

section \<open>The log\<close>

lemma mem_update_all: "(m::mem)\<lparr>plock := c, trace := t\<rparr> = \<lparr>plock = c, trace = t\<rparr>"
  by (cases m) simp

lemma stored_append: "stored (xs @ ys) = stored xs @ stored ys"
  by (induction xs rule: stored.induct) simp_all

section \<open>Runs of the reader\<close>

lemma read_loop_step:
  "read_loop env body k i new \<lparr>plock = c, trace = t\<rparr> =
     (if read_lock_baseline new \<noteq> env (k + 1)
      then read_loop env body (k + 2) (i + 1) (env (k + 1))
             \<lparr>plock = env (k + 1),
              trace = t @ [Body (read_lock_baseline new), SignalFence ATOMIC_ACQ_REL,
                   Load ATOMIC_ACQUIRE (env k), Load ATOMIC_ACQUIRE (env (k + 1))]\<rparr>
      else Some (body i, i + 1, k + 2,
             \<lparr>plock = env (k + 1),
              trace = t @ [Body (read_lock_baseline new), SignalFence ATOMIC_ACQ_REL,
                   Load ATOMIC_ACQUIRE (env k), Load ATOMIC_ACQUIRE (env (k + 1))]\<rparr>))"
  by (subst read_loop.simps)
     (simp add: kroki_seqlock_read_unlock_def atomic_signal_fence_def atomic_load_n_def
        at_access_def Let_def)

lemma read_loop_unfold:
  "(\<forall>j<n. \<not> check_passes env j) \<Longrightarrow>
   read_loop env body 1 0 (env 0) \<lparr>plock = env 0, trace = t\<rparr> =
   read_loop env body (2 * n + 1) n (env (2 * n))
     \<lparr>plock = env (2 * n), trace = t @ concat (map (iteration env) [0..<n])\<rparr>"
proof (induction n)
  case 0
  then show ?case by simp
next
  case (Suc n)
  from Suc.prems have last: "\<not> check_passes env n" by simp
  from Suc.prems have "\<forall>j<n. \<not> check_passes env j" by simp
  then have "read_loop env body 1 0 (env 0) \<lparr>plock = env 0, trace = t\<rparr> =
      read_loop env body (2 * n + 1) n (env (2 * n))
        \<lparr>plock = env (2 * n), trace = t @ concat (map (iteration env) [0..<n])\<rparr>"
    by (rule Suc.IH)
  also have "\<dots> = read_loop env body (2 * Suc n + 1) (Suc n) (env (2 * Suc n))
        \<lparr>plock = env (2 * Suc n), trace = t @ concat (map (iteration env) [0..<Suc n])\<rparr>"
    using last by (subst read_loop_step) (simp add: check_passes_def iteration_def)
  finally show ?case .
qed

lemma read_section_unfold:
  assumes "\<forall>j<n. \<not> check_passes env j"
  shows "read_section env body m =
    read_loop env body (2 * n + 1) n (env (2 * n))
     \<lparr>plock = env (2 * n),
      trace = trace m @ Load ATOMIC_ACQUIRE (env 0) # concat (map (iteration env) [0..<n])\<rparr>"
  using read_loop_unfold [OF assms, of body "trace m @ [Load ATOMIC_ACQUIRE (env 0)]"]
  by (simp add: read_section_def read_lock_load_def atomic_load_n_def at_access_def mem_update_all)

lemma read_section_run:
  assumes "\<forall>j<n. \<not> check_passes env j" and "check_passes env n"
  shows "read_section env body m =
    Some (body n, Suc n, 2 * n + 3,
     \<lparr>plock = env (2 * n + 2),
      trace = trace m @ Load ATOMIC_ACQUIRE (env 0) # concat (map (iteration env) [0..<Suc n])\<rparr>)"
  using assms(2)
  by (subst read_section_unfold [OF assms(1)], subst read_loop_step)
     (simp add: check_passes_def iteration_def)

lemma read_loop_Some:
  assumes "read_loop env body k i new m = Some y"
  shows "\<exists>j. read_lock_baseline (if j = 0 then new else env (k + 2 * j - 1)) = env (k + 2 * j + 1)"
proof (rule read_loop.raw_induct
    [where P = "\<lambda>env body k i new m y. \<exists>j. read_lock_baseline
       (if j = 0 then new else env (k + 2 * j - 1)) = env (k + 2 * j + 1)", OF _ assms], goal_cases)
  case (1 rl env body k i new m y)
  show ?case
  proof (cases "read_lock_baseline new = env (k + 1)")
    case True
    then have "read_lock_baseline (if (0::nat) = 0 then new else env (k + 2 * 0 - 1)) = env (k + 2 * 0 + 1)"
      by simp
    then show ?thesis by blast
  next
    case False
    with 1(2) obtain m2 where "rl env body (k + 2) (i + 1) (env (k + 1)) m2 = Some y"
      by (simp add: kroki_seqlock_read_unlock_def atomic_signal_fence_def atomic_load_n_def
          at_access_def Let_def)
    then have "\<exists>j. read_lock_baseline (if j = 0 then env (k + 1) else env (k + 2 + 2 * j - 1))
                 = env (k + 2 + 2 * j + 1)"
      by (rule 1(1))
    then obtain j where j: "read_lock_baseline (if j = 0 then env (k + 1) else env (k + 2 + 2 * j - 1))
                 = env (k + 2 + 2 * j + 1)" ..
    have "read_lock_baseline (if Suc j = 0 then new else env (k + 2 * Suc j - 1))
                 = env (k + 2 * Suc j + 1)"
      using j by (cases "j = 0") (simp_all add: add.commute add.left_commute)
    then show ?thesis by blast
  qed
qed

lemma read_section_None:
  assumes "\<forall>j. \<not> check_passes env j"
  shows "read_section env body m = None"
proof (cases "read_section env body m")
  case None then show ?thesis .
next
  case (Some y)
  then have "read_loop env body 1 0 (env 0) \<lparr>plock = env 0, trace = trace m @ [Load ATOMIC_ACQUIRE (env 0)]\<rparr> = Some y"
    by (simp add: read_section_def read_lock_load_def atomic_load_n_def at_access_def mem_update_all)
  from read_loop_Some [OF this] obtain j
    where "read_lock_baseline (if j = 0 then env 0 else env (1 + 2 * j - 1)) = env (1 + 2 * j + 1)" ..
  then have "check_passes env j"
    by (cases "j = 0") (simp_all add: check_passes_def)
  with assms show ?thesis by simp
qed

section \<open>Runs of the spinning writer\<close>

lemma write_lock_spin_loop_step:
  "write_lock_spin_loop a env spur k old \<lparr>plock = c, trace = t\<rparr> =
     (if env k = old \<and> \<not> spur k
      then Some (old, k + 1,
             \<lparr>plock = old + 1,
              trace = t @ [CmpXchg True ATOMIC_ACQUIRE ATOMIC_RELAXED old (old + 1) True]\<rparr>)
      else write_lock_spin_loop a env spur (k + 2) (spin_expected (env (k + 1)))
             \<lparr>plock = env (k + 1),
              trace = t @ [CmpXchg True ATOMIC_ACQUIRE ATOMIC_RELAXED old (old + 1) False]
                        @ pause_events a @ [Load ATOMIC_RELAXED (env (k + 1))]\<rparr>)"
  by (subst write_lock_spin_loop.simps)
     (simp add: atomic_compare_exchange_n_def kroki_seqlock_pause_def atomic_load_n_def
        at_access_def pause_events_def Let_def)

lemma write_lock_spin_loop_unfold:
  "(\<forall>j<n. \<not> cas_succeeds env spur j) \<Longrightarrow>
   write_lock_spin_loop a env spur 1 (spin_expected (env 0))
     \<lparr>plock = env 0, trace = t @ [Load ATOMIC_RELAXED (env 0)]\<rparr> =
   write_lock_spin_loop a env spur (2 * n + 1) (spin_expected (env (2 * n)))
     \<lparr>plock = env (2 * n),
      trace = t @ concat (map (failed_attempt a env) [0..<n]) @ [Load ATOMIC_RELAXED (env (2 * n))]\<rparr>"
proof (induction n)
  case 0
  then show ?case by simp
next
  case (Suc n)
  from Suc.prems have last: "\<not> cas_succeeds env spur n" by simp
  from Suc.prems have "\<forall>j<n. \<not> cas_succeeds env spur j" by simp
  then have "write_lock_spin_loop a env spur 1 (spin_expected (env 0))
     \<lparr>plock = env 0, trace = t @ [Load ATOMIC_RELAXED (env 0)]\<rparr> =
   write_lock_spin_loop a env spur (2 * n + 1) (spin_expected (env (2 * n)))
     \<lparr>plock = env (2 * n),
      trace = t @ concat (map (failed_attempt a env) [0..<n]) @ [Load ATOMIC_RELAXED (env (2 * n))]\<rparr>"
    by (rule Suc.IH)
  also have "\<dots> = write_lock_spin_loop a env spur (2 * Suc n + 1) (spin_expected (env (2 * Suc n)))
     \<lparr>plock = env (2 * Suc n),
      trace = t @ concat (map (failed_attempt a env) [0..<Suc n]) @ [Load ATOMIC_RELAXED (env (2 * Suc n))]\<rparr>"
    using last by (subst write_lock_spin_loop_step) (auto simp add: cas_succeeds_def failed_attempt_def)
  finally show ?case .
qed

lemma write_lock_spin_unfold:
  assumes "\<forall>j<n. \<not> cas_succeeds env spur j"
  shows "kroki_seqlock_write_lock_spin a env spur m =
   write_lock_spin_loop a env spur (2 * n + 1) (spin_expected (env (2 * n)))
     \<lparr>plock = env (2 * n),
      trace = trace m @ concat (map (failed_attempt a env) [0..<n]) @ [Load ATOMIC_RELAXED (env (2 * n))]\<rparr>"
  using write_lock_spin_loop_unfold [OF assms, of a "trace m"]
  by (simp add: kroki_seqlock_write_lock_spin_def atomic_load_n_def at_access_def mem_update_all)

lemma write_lock_spin_run:
  assumes "\<forall>j<n. \<not> cas_succeeds env spur j" and "cas_succeeds env spur n"
  shows "kroki_seqlock_write_lock_spin a env spur m =
    Some (spin_expected (env (2 * n)), 2 * n + 2,
     \<lparr>plock = spin_expected (env (2 * n)) + 1,
      trace = trace m @ concat (map (failed_attempt a env) [0..<n]) @
        [Load ATOMIC_RELAXED (env (2 * n)),
         CmpXchg True ATOMIC_ACQUIRE ATOMIC_RELAXED
           (spin_expected (env (2 * n))) (spin_expected (env (2 * n)) + 1) True]\<rparr>)"
  using assms(2)
  by (subst write_lock_spin_unfold [OF assms(1)], subst write_lock_spin_loop_step)
     (simp add: cas_succeeds_def)

lemma write_lock_spin_loop_Some:
  assumes "write_lock_spin_loop a env spur k old m = Some y"
  shows "\<exists>j. env (k + 2 * j) = (if j = 0 then old else spin_expected (env (k + 2 * j - 1)))
            \<and> \<not> spur (k + 2 * j)"
proof (rule write_lock_spin_loop.raw_induct
    [where P = "\<lambda>a env spur k old m y.
       \<exists>j. env (k + 2 * j) = (if j = 0 then old else spin_expected (env (k + 2 * j - 1)))
            \<and> \<not> spur (k + 2 * j)", OF _ assms], goal_cases)
  case (1 wl a env spur k old m y)
  show ?case
  proof (cases "env k = old \<and> \<not> spur k")
    case True
    then have "env (k + 2 * 0) = (if (0::nat) = 0 then old else spin_expected (env (k + 2 * 0 - 1)))
            \<and> \<not> spur (k + 2 * 0)"
      by simp
    then show ?thesis by blast
  next
    case False
    with 1(2) obtain m3 where "wl a env spur (k + 2) (spin_expected (env (k + 1))) m3 = Some y"
      by (auto simp add: atomic_compare_exchange_n_def kroki_seqlock_pause_def atomic_load_n_def
        at_access_def Let_def split: if_splits)
    then have "\<exists>j. env (k + 2 + 2 * j) =
         (if j = 0 then spin_expected (env (k + 1)) else spin_expected (env (k + 2 + 2 * j - 1)))
            \<and> \<not> spur (k + 2 + 2 * j)"
      by (rule 1(1))
    then obtain j where j: "env (k + 2 + 2 * j) =
         (if j = 0 then spin_expected (env (k + 1)) else spin_expected (env (k + 2 + 2 * j - 1)))
            \<and> \<not> spur (k + 2 + 2 * j)" ..
    have "env (k + 2 * Suc j) = (if Suc j = 0 then old else spin_expected (env (k + 2 * Suc j - 1)))
            \<and> \<not> spur (k + 2 * Suc j)"
      using j by (cases "j = 0") (simp_all add: add.commute add.left_commute)
    then show ?thesis by blast
  qed
qed

lemma write_lock_spin_None:
  assumes "\<forall>j. \<not> cas_succeeds env spur j"
  shows "kroki_seqlock_write_lock_spin a env spur m = None"
proof (cases "kroki_seqlock_write_lock_spin a env spur m")
  case None then show ?thesis .
next
  case (Some y)
  then have "write_lock_spin_loop a env spur 1 (spin_expected (env 0))
     \<lparr>plock = env 0, trace = trace m @ [Load ATOMIC_RELAXED (env 0)]\<rparr> = Some y"
    by (simp add: kroki_seqlock_write_lock_spin_def atomic_load_n_def at_access_def mem_update_all)
  from write_lock_spin_loop_Some [OF this] obtain j
    where "env (1 + 2 * j) = (if j = 0 then spin_expected (env 0) else spin_expected (env (1 + 2 * j - 1)))
            \<and> \<not> spur (1 + 2 * j)" ..
  then have "cas_succeeds env spur j"
    by (cases "j = 0") (simp_all add: cas_succeeds_def)
  with assms show ?thesis by simp
qed

section \<open>Steps of several spinning writers\<close>

lemma set_holders: "set (holders ws) = {i. i < length ws \<and> inside (ws ! i)}"
  by (auto simp add: holders_def)

lemma set_holders_update:
  "i < length ws \<Longrightarrow>
   set (holders (ws[i := w])) =
     (if inside w then insert i (set (holders ws)) else set (holders ws) - {i})"
  by (auto simp add: set_holders nth_list_update)

lemma holders_empty_iff: "holders ws = [] \<longleftrightarrow> set (holders ws) = {}"
  by simp

lemma step_out_of_range: "\<not> i < length (threads c) \<Longrightarrow> step a (i, sp) c = c"
  by (simp add: step_def)

lemma step_load:
  "i < length (threads c) \<Longrightarrow> pc (threads c ! i) = W_load \<Longrightarrow>
   step a (i, sp) c =
     \<lparr>shared = \<lparr>plock = plock (shared c),
                 trace = trace (shared c) @ [Load ATOMIC_RELAXED (plock (shared c))]\<rparr>,
      threads = (threads c)[i := \<lparr>pc = W_cas, seqlock_old = spin_expected (plock (shared c))\<rparr>]\<rparr>"
  by (simp add: step_def writer_step_def atomic_load_n_def mem_update_all [symmetric])

lemma step_pause:
  "i < length (threads c) \<Longrightarrow> pc (threads c ! i) = W_pause \<Longrightarrow>
   step a (i, sp) c =
     \<lparr>shared = \<lparr>plock = plock (shared c),
                 trace = trace (shared c) @ pause_events a @ [Load ATOMIC_RELAXED (plock (shared c))]\<rparr>,
      threads = (threads c)[i := \<lparr>pc = W_cas, seqlock_old = spin_expected (plock (shared c))\<rparr>]\<rparr>"
  by (simp add: step_def writer_step_def atomic_load_n_def kroki_seqlock_pause_def pause_events_def
       Let_def mem_update_all [symmetric])

lemma step_cas_ok:
  "i < length (threads c) \<Longrightarrow> pc (threads c ! i) = W_cas \<Longrightarrow>
   plock (shared c) = seqlock_old (threads c ! i) \<Longrightarrow> \<not> sp \<Longrightarrow>
   step a (i, sp) c =
     \<lparr>shared = \<lparr>plock = plock (shared c) + 1,
                 trace = trace (shared c) @
                   [CmpXchg True ATOMIC_ACQUIRE ATOMIC_RELAXED (plock (shared c))
                      (plock (shared c) + 1) True]\<rparr>,
      threads = (threads c)[i := \<lparr>pc = W_inside, seqlock_old = plock (shared c)\<rparr>]\<rparr>"
  by (simp add: step_def writer_step_def atomic_compare_exchange_n_def mem_update_all [symmetric])

lemma step_cas_fail:
  "i < length (threads c) \<Longrightarrow> pc (threads c ! i) = W_cas \<Longrightarrow>
   plock (shared c) \<noteq> seqlock_old (threads c ! i) \<or> sp \<Longrightarrow>
   step a (i, sp) c =
     \<lparr>shared = \<lparr>plock = plock (shared c),
                 trace = trace (shared c) @
                   [CmpXchg True ATOMIC_ACQUIRE ATOMIC_RELAXED (seqlock_old (threads c ! i))
                      (seqlock_old (threads c ! i) + 1) False]\<rparr>,
      threads = (threads c)[i := \<lparr>pc = W_pause, seqlock_old = plock (shared c)\<rparr>]\<rparr>"
  by (auto simp add: step_def writer_step_def atomic_compare_exchange_n_def mem_update_all [symmetric])

lemma step_unlock:
  "i < length (threads c) \<Longrightarrow> pc (threads c ! i) = W_inside \<Longrightarrow>
   step a (i, sp) c =
     \<lparr>shared = \<lparr>plock = seqlock_old (threads c ! i) + 2,
                 trace = trace (shared c) @
                   [Store ATOMIC_RELEASE (seqlock_old (threads c ! i) + 2)]\<rparr>,
      threads = (threads c)[i := \<lparr>pc = W_done, seqlock_old = seqlock_old (threads c ! i)\<rparr>]\<rparr>"
  apply (simp add: step_def writer_step_def kroki_seqlock_write_unlock_def atomic_store_n_def
        mem_update_all [symmetric])
  apply (cases "threads c ! i")
  apply simp
  done

lemma step_done:
  "i < length (threads c) \<Longrightarrow> pc (threads c ! i) = W_done \<Longrightarrow> step a (i, sp) c = c"
  by (simp add: step_def writer_step_def)


lemma inv_step:
  assumes "mutex_inv c"
  shows "mutex_inv (step a (i, sp) c)"
proof (cases "i < length (threads c)")
  case False
  with assms show ?thesis by (simp add: step_out_of_range)
next
  case i: True
  let ?H = "set (holders (threads c))"
  from assms have
    cas: "\<And>j. j < length (threads c) \<Longrightarrow> pc (threads c ! j) = W_cas \<Longrightarrow> even (seqlock_old (threads c ! j))"
    and ins: "\<And>j. j \<in> ?H \<Longrightarrow>
          even (seqlock_old (threads c ! j)) \<and> plock (shared c) = seqlock_old (threads c ! j) + 1"
    and held: "odd (plock (shared c)) \<Longrightarrow> ?H \<noteq> {}"
    and one: "\<And>j k. j \<in> ?H \<Longrightarrow> k \<in> ?H \<Longrightarrow> j = k"
    by (auto simp add: mutex_inv_def)
  have mem: "i \<in> ?H \<longleftrightarrow> inside (threads c ! i)"
    using i by (simp add: set_holders)
  show ?thesis
  proof (cases "pc (threads c ! i)")
    case W_load
    then have "i \<notin> ?H" by (simp add: mem inside_def)
    with i cas ins held one show ?thesis
      unfolding step_load [OF i W_load] mutex_inv_def holders_empty_iff
      by (auto simp add: nth_list_update set_holders_update inside_def even_spin_expected)
  next
    case W_pause
    then have "i \<notin> ?H" by (simp add: mem inside_def)
    with i cas ins held one show ?thesis
      unfolding step_pause [OF i W_pause] mutex_inv_def holders_empty_iff
      by (auto simp add: nth_list_update set_holders_update inside_def even_spin_expected)
  next
    case W_done
    with assms i show ?thesis by (simp add: step_done)
  next
    case W_cas
    show ?thesis
    proof (cases "plock (shared c) = seqlock_old (threads c ! i) \<and> \<not> sp")
      case True
      then have eq: "plock (shared c) = seqlock_old (threads c ! i)" and sp: "\<not> sp" by simp_all
      have ev: "even (plock (shared c))" using cas [OF i W_cas] eq by simp
      have none: "?H = {}"
      proof (rule equals0I)
        fix j
        assume "j \<in> ?H"
        from ins [OF this] have "odd (plock (shared c))" by simp
        with ev show False by simp
      qed
      show ?thesis
        unfolding step_cas_ok [OF i W_cas eq sp] mutex_inv_def holders_empty_iff
        using i cas ev none by (auto simp add: nth_list_update set_holders_update inside_def)
    next
      case False
      then have ne: "plock (shared c) \<noteq> seqlock_old (threads c ! i) \<or> sp" by blast
      have "i \<notin> ?H" using W_cas by (simp add: mem inside_def)
      with i cas ins held one show ?thesis
        unfolding step_cas_fail [OF i W_cas ne] mutex_inv_def holders_empty_iff
        by (auto simp add: nth_list_update set_holders_update inside_def)
    qed
  next
    case W_inside
    then have me: "i \<in> ?H" by (simp add: mem inside_def)
    from ins [OF me] have ev: "even (seqlock_old (threads c ! i))" by simp
    have others: "?H = {i}"
      using one [OF _ me] me by blast
    show ?thesis
      unfolding step_unlock [OF i W_inside] mutex_inv_def holders_empty_iff
      using i cas ev others by (auto simp add: nth_list_update set_holders_update inside_def)
  qed
qed

lemma holders_replicate: "\<not> inside w \<Longrightarrow> holders (replicate n w) = []"
  by (simp add: holders_def filter_empty_conv)

lemma inv_init: "even c0 \<Longrightarrow> mutex_inv (init c0 n)"
proof -
  assume c0: "even c0"
  have h: "holders (threads (init c0 n)) = []"
    by (simp add: init_def holders_replicate inside_def)
  have p: "plock (shared (init c0 n)) = c0"
    by (simp add: init_def)
  have t: "\<forall>i<length (threads (init c0 n)). pc (threads (init c0 n) ! i) \<noteq> W_cas"
    by (simp add: init_def)
  show ?thesis
    unfolding mutex_inv_def h p using c0 t by simp
qed

lemma inv_run: "mutex_inv c \<Longrightarrow> mutex_inv (run a sched c)"
proof (induction sched arbitrary: c)
  case Nil
  then show ?case by (simp add: run_def)
next
  case (Cons e sched)
  obtain i sp where e: "e = (i, sp)" by (cases e)
  from Cons.prems have "mutex_inv (step a (i, sp) c)" by (rule inv_step)
  then have "mutex_inv (run a sched (step a (i, sp) c))" by (rule Cons.IH)
  then show ?case by (simp add: run_def e)
qed

lemma distinct_all_equal:
  assumes "distinct xs" and "\<And>i j. i \<in> set xs \<Longrightarrow> j \<in> set xs \<Longrightarrow> i = j"
  shows "length xs \<le> 1"
proof (cases xs)
  case Nil
  then show ?thesis by simp
next
  case outer: (Cons x ys)
  have "ys = []"
  proof (cases ys)
    case Nil
    then show ?thesis .
  next
    case (Cons y zs)
    with outer have "x \<in> set xs" and "y \<in> set xs" by simp_all
    then have "x = y" by (rule assms(2))
    moreover from assms(1) outer Cons have "x \<noteq> y" by simp
    ultimately show ?thesis by simp
  qed
  with outer show ?thesis by simp
qed

lemma at_most_one_holder:
  assumes "mutex_inv c"
  shows "length (holders (threads c)) \<le> 1"
proof (rule distinct_all_equal)
  show "distinct (holders (threads c))" by (simp add: holders_def)
next
  fix i j
  assume "i \<in> set (holders (threads c))" and "j \<in> set (holders (threads c))"
  with assms show "i = j" unfolding mutex_inv_def by blast
qed

lemma singleton_holder: "length xs \<le> 1 \<Longrightarrow> i \<in> set xs \<Longrightarrow> xs = [i]"
  by (cases xs) auto

lemma length_threads_step: "length (threads (step a e c)) = length (threads c)"
  by (cases e) (simp add: step_def split_def Let_def)

lemma odd_iff_held:
  assumes "mutex_inv c"
  shows "odd (plock (shared c)) \<longleftrightarrow> holders (threads c) \<noteq> []"
proof
  assume "odd (plock (shared c))"
  with assms show "holders (threads c) \<noteq> []" by (simp add: mutex_inv_def)
next
  assume "holders (threads c) \<noteq> []"
  then obtain i where "i \<in> set (holders (threads c))" by (cases "holders (threads c)") auto
  with assms have "even (seqlock_old (threads c ! i))"
    and "plock (shared c) = seqlock_old (threads c ! i) + 1"
    by (simp_all add: mutex_inv_def)
  then show "odd (plock (shared c))" by simp
qed


lemma step_effect:
  assumes "mutex_inv c"
  shows "plock (shared (step a (i, sp) c)) = plock (shared c) \<and>
           stored (trace (shared (step a (i, sp) c))) = stored (trace (shared c))
         \<or> plock (shared (step a (i, sp) c)) = plock (shared c) + 1 \<and>
           stored (trace (shared (step a (i, sp) c))) =
             stored (trace (shared c)) @ [plock (shared c) + 1] \<and>
           i < length (threads c) \<and>
           (if odd (plock (shared c)) then inside (threads c ! i)
            else pc (threads c ! i) = W_cas \<and> inside (threads (step a (i, sp) c) ! i))"
proof (cases "i < length (threads c)")
  case False
  then show ?thesis by (simp add: step_out_of_range)
next
  case i: True
  show ?thesis
  proof (cases "pc (threads c ! i)")
    case W_load
    show ?thesis unfolding step_load [OF i W_load] by (simp add: stored_append)
  next
    case W_pause
    show ?thesis unfolding step_pause [OF i W_pause]
      by (simp add: stored_append pause_events_def)
  next
    case W_done
    with i show ?thesis by (simp add: step_done)
  next
    case W_cas
    show ?thesis
    proof (cases "plock (shared c) = seqlock_old (threads c ! i) \<and> \<not> sp")
      case True
      then have eq: "plock (shared c) = seqlock_old (threads c ! i)" and sp: "\<not> sp" by simp_all
      from assms i W_cas have "even (seqlock_old (threads c ! i))" by (simp add: mutex_inv_def)
      with eq have "even (plock (shared c))" by simp
      with i W_cas show ?thesis unfolding step_cas_ok [OF i W_cas eq sp]
        by (simp add: stored_append inside_def)
    next
      case False
      then have ne: "plock (shared c) \<noteq> seqlock_old (threads c ! i) \<or> sp" by blast
      show ?thesis unfolding step_cas_fail [OF i W_cas ne] by (simp add: stored_append)
    qed
  next
    case W_inside
    with i have "i \<in> set (holders (threads c))" by (simp add: set_holders inside_def)
    with assms have "even (seqlock_old (threads c ! i))"
      and "plock (shared c) = seqlock_old (threads c ! i) + 1" by (simp_all add: mutex_inv_def)
    with i W_inside show ?thesis unfolding step_unlock [OF i W_inside]
      by (simp add: stored_append inside_def)
  qed
qed

lemma consecutive_snoc:
  "consecutive c0 vs \<Longrightarrow> consecutive c0 (vs @ [c0 + of_nat (length vs) + 1])"
  by (simp add: consecutive_def add.commute add.left_commute)

lemma counted_step:
  assumes "mutex_inv c" and "counted c0 c"
  shows "counted c0 (step a (i, sp) c)"
  using step_effect [OF assms(1), of a i sp] assms(2)
  by (auto simp add: counted_def consecutive_snoc)

lemma counted_run: "mutex_inv c \<Longrightarrow> counted c0 c \<Longrightarrow> counted c0 (run a sched c)"
proof (induction sched arbitrary: c)
  case Nil
  then show ?case by (simp add: run_def)
next
  case (Cons e sched)
  obtain i sp where e: "e = (i, sp)" by (cases e)
  from Cons.prems have "mutex_inv (step a (i, sp) c)" and "counted c0 (step a (i, sp) c)"
    by (simp_all add: inv_step counted_step)
  then have "counted c0 (run a sched (step a (i, sp) c))" by (rule Cons.IH)
  then show ?case by (simp add: run_def e)
qed

lemma counted_init: "counted c0 (init c0 n)"
  by (simp add: counted_def init_def consecutive_def)

section \<open>First successful attempt\<close>

lemma first_success:
  assumes "P (j::nat)"
  obtains n where "\<forall>i<n. \<not> P i" and "P n"
proof -
  have "P (LEAST i. P i)" using assms by (rule LeastI)
  moreover have "\<forall>i<(LEAST i. P i). \<not> P i" using not_less_Least by blast
  ultimately show thesis using that by blast
qed

lemma read_section_Some:
  assumes "read_section env body m = Some y"
  obtains n where "\<forall>j<n. \<not> check_passes env j" and "check_passes env n"
    and "y = (body n, Suc n, 2 * n + 3,
       \<lparr>plock = env (2 * n + 2),
        trace = trace m @ Load ATOMIC_ACQUIRE (env 0) # concat (map (iteration env) [0..<Suc n])\<rparr>)"
proof -
  have "\<exists>j. check_passes env j"
  proof (rule ccontr)
    assume "\<not> (\<exists>j. check_passes env j)"
    then have "read_section env body m = None" by (simp add: read_section_None)
    with assms show False by simp
  qed
  then obtain j where "check_passes env j" ..
  then obtain n where n: "\<forall>i<n. \<not> check_passes env i" "check_passes env n"
    by (rule first_success)
  from read_section_run [OF n, of body m] assms
  have "y = (body n, Suc n, 2 * n + 3,
       \<lparr>plock = env (2 * n + 2),
        trace = trace m @ Load ATOMIC_ACQUIRE (env 0) # concat (map (iteration env) [0..<Suc n])\<rparr>)"
    by simp
  with n show thesis by (rule that)
qed

lemma write_lock_spin_Some:
  assumes "kroki_seqlock_write_lock_spin a env spur m = Some y"
  obtains n where "\<forall>j<n. \<not> cas_succeeds env spur j" and "cas_succeeds env spur n"
    and "y = (spin_expected (env (2 * n)), 2 * n + 2,
     \<lparr>plock = spin_expected (env (2 * n)) + 1,
      trace = trace m @ concat (map (failed_attempt a env) [0..<n]) @
        [Load ATOMIC_RELAXED (env (2 * n)),
         CmpXchg True ATOMIC_ACQUIRE ATOMIC_RELAXED
           (spin_expected (env (2 * n))) (spin_expected (env (2 * n)) + 1) True]\<rparr>)"
proof -
  have "\<exists>j. cas_succeeds env spur j"
  proof (rule ccontr)
    assume "\<not> (\<exists>j. cas_succeeds env spur j)"
    then have "kroki_seqlock_write_lock_spin a env spur m = None" by (simp add: write_lock_spin_None)
    with assms show False by simp
  qed
  then obtain j where "cas_succeeds env spur j" ..
  then obtain n where n: "\<forall>i<n. \<not> cas_succeeds env spur i" "cas_succeeds env spur n"
    by (rule first_success)
  from write_lock_spin_run [OF n, of a m] assms
  have "y = (spin_expected (env (2 * n)), 2 * n + 2,
     \<lparr>plock = spin_expected (env (2 * n)) + 1,
      trace = trace m @ concat (map (failed_attempt a env) [0..<n]) @
        [Load ATOMIC_RELAXED (env (2 * n)),
         CmpXchg True ATOMIC_ACQUIRE ATOMIC_RELAXED
           (spin_expected (env (2 * n))) (spin_expected (env (2 * n)) + 1) True]\<rparr>)"
    by simp
  with n show thesis by (rule that)
qed

lemma stored_iterations: "stored (concat (map (iteration env) js)) = []"
  by (induction js) (simp_all add: stored_append iteration_def)

lemma stored_failed_attempts: "stored (concat (map (failed_attempt a env) js)) = []"
  by (induction js) (simp_all add: stored_append failed_attempt_def pause_events_def)

lemma upt_0_2: "[0..<2] = [0, 1]"
  by (simp add: numeral_2_eq_2)

lemma all_less_2: "(\<forall>j<2. P (j::nat)) \<longleftrightarrow> P 0 \<and> P 1"
  by (auto simp add: less_2_cases_iff)

section \<open>The writer with no competitor, evaluated\<close>

lemma write_lock_eq:
  "kroki_seqlock_write_lock \<lparr>plock = c, trace = t\<rparr> =
     (c, \<lparr>plock = c + 1,
          trace = t @ [Load ATOMIC_RELAXED c, Store ATOMIC_RELAXED (c + 1),
                       Store ATOMIC_RELEASE (c + 1), SignalFence ATOMIC_ACQ_REL]\<rparr>)"
  by (simp add: kroki_seqlock_write_lock_def atomic_load_n_def atomic_store_n_def
      atomic_signal_fence_def)

lemma write_unlock_eq:
  "kroki_seqlock_write_unlock old \<lparr>plock = c, trace = t\<rparr> =
     \<lparr>plock = old + 2, trace = t @ [Store ATOMIC_RELEASE (old + 2)]\<rparr>"
  by (simp add: kroki_seqlock_write_unlock_def atomic_store_n_def)

lemma write_section_eq:
  "write_section \<lparr>plock = c, trace = t\<rparr> =
     \<lparr>plock = c + 2,
      trace = t @ [Load ATOMIC_RELAXED c, Store ATOMIC_RELAXED (c + 1),
                   Store ATOMIC_RELEASE (c + 1), SignalFence ATOMIC_ACQ_REL,
                   Store ATOMIC_RELEASE (c + 2)]\<rparr>"
  by (simp add: write_section_def write_lock_eq write_unlock_eq)

lemma even_unat: "even (c::kroki_seqlock_t) \<longleftrightarrow> even (unat c)"
  by (metis even_of_nat mult.right_neutral unsigned_1 word_arith_nat_mult)

lemma generation_advances:
  assumes "even (c::kroki_seqlock_t)"
  shows "unat (c + 2) div 2 = (unat c div 2 + 1) mod 2 ^ 31"
proof -
  from assms obtain g where g: "unat c = 2 * g" by (auto simp add: even_unat elim: evenE)
  have "unat (c + 2) = (2 * g + 2) mod 2 ^ 32" by (simp add: unat_word_ariths g)
  also have "\<dots> = (2 * (g + 1)) mod (2 * 2 ^ 31)" by simp
  also have "\<dots> = 2 * ((g + 1) mod 2 ^ 31)" by (rule mult_mod_right [symmetric])
  finally show ?thesis by (simp add: g)
qed

section \<open>The reader, evaluated\<close>

lemma read_lock_eq:
  "kroki_seqlock_read_lock m =
     (read_lock_baseline (plock m), plock m, m\<lparr>trace := trace m @ [Load ATOMIC_ACQUIRE (plock m)]\<rparr>)"
  by (simp add: kroki_seqlock_read_lock_def read_lock_load_def atomic_load_n_def)

lemma read_unlock_eq:
  "kroki_seqlock_read_unlock env k m =
     (env (k + 1),
      m\<lparr>plock := env (k + 1),
        trace := trace m @ [SignalFence ATOMIC_ACQ_REL, Load ATOMIC_ACQUIRE (env k),
                    Load ATOMIC_ACQUIRE (env (k + 1))]\<rparr>)"
  by (simp add: kroki_seqlock_read_unlock_def atomic_signal_fence_def atomic_load_n_def
      at_access_def)

section \<open>The properties of the specification\<close>

text \<open>
  C2. One writer on its own runs \<^verbatim>\<open>write_lock\<close> and then \<^verbatim>\<open>write_unlock\<close> on a
  counter that holds an even value \<open>C\<close>. The lock captures \<open>C\<close>; the unlock is one store
  with release ordering of the captured value plus 2; afterwards the counter holds
  \<open>C + 2\<close> (in the arithmetic of the counter, that is modulo \<open>2 ^ 32\<close>), which is even
  again, and the generation, the counter halved, has advanced by one (modulo \<open>2 ^ 31\<close>).
\<close>

theorem write_lock_unlock_adds_two:
  assumes "even C"
  shows "fst (kroki_seqlock_write_lock \<lparr>plock = C, trace = t\<rparr>) = C \<and>
     kroki_seqlock_write_unlock C m =
       m\<lparr>plock := C + 2, trace := trace m @ [Store ATOMIC_RELEASE (C + 2)]\<rparr> \<and>
     plock (write_section \<lparr>plock = C, trace = t\<rparr>) = C + 2 \<and>
     unat (plock (write_section \<lparr>plock = C, trace = t\<rparr>)) = (unat C + 2) mod 2 ^ 32 \<and>
     even (plock (write_section \<lparr>plock = C, trace = t\<rparr>)) \<and>
     unat (plock (write_section \<lparr>plock = C, trace = t\<rparr>)) div 2 = (unat C div 2 + 1) mod 2 ^ 31"
proof -
  have ws: "plock (write_section \<lparr>plock = C, trace = t\<rparr>) = C + 2"
    by (simp add: write_section_eq)
  have u: "unat (C + 2) = (unat C + 2) mod 2 ^ 32"
    by (simp add: unat_word_ariths)
  have l: "fst (kroki_seqlock_write_lock \<lparr>plock = C, trace = t\<rparr>) = C"
    by (simp add: write_lock_eq)
  have ul: "kroki_seqlock_write_unlock C m =
      m\<lparr>plock := C + 2, trace := trace m @ [Store ATOMIC_RELEASE (C + 2)]\<rparr>"
    by (simp add: kroki_seqlock_write_unlock_def atomic_store_n_def)
  have e: "even (C + 2)" using assms by simp
  show ?thesis
    unfolding ws using l ul u e generation_advances [OF assms] by blast
qed

theorem write_lock_unlock_adds_two_witness:
  "even (4 :: kroki_seqlock_t) \<and>
   fst (kroki_seqlock_write_lock \<lparr>plock = 4, trace = []\<rparr>) = 4 \<and>
   plock (write_section \<lparr>plock = 4, trace = []\<rparr>) = 6 \<and>
   unat (plock (write_section \<lparr>plock = 4, trace = []\<rparr>)) div 2 = 3"
  using write_lock_unlock_adds_two [of 4 "[]" "\<lparr>plock = 5, trace = []\<rparr>"] by simp

text \<open>
  C3. \<^verbatim>\<open>write_lock_spin\<close> expects the loaded value \<open>v\<close> itself when \<open>v\<close> is even and
  \<open>v + 1\<close> when \<open>v\<close> is odd. Each attempt is a relaxed load followed by a weak exchange
  from the expected value to the expected value plus 1, with acquire ordering on success
  and relaxed ordering on failure; a failed attempt is followed by the pause (nothing
  on an architecture other than x86) and by a new attempt with a new load. The macro
  returns at the first exchange that succeeds, after any number \<open>n\<close> of failed attempts,
  and it does not return when no exchange ever succeeds.
\<close>

theorem write_lock_spin_attempts:
  "spin_expected v = (if even v then v else v + 1) \<and>
   ((\<forall>j<n. \<not> cas_succeeds env spur j) \<and> cas_succeeds env spur n \<longrightarrow>
      kroki_seqlock_write_lock_spin a env spur m =
        Some (spin_expected (env (2 * n)), 2 * n + 2,
          \<lparr>plock = spin_expected (env (2 * n)) + 1,
           trace = trace m @ concat (map (failed_attempt a env) [0..<n]) @
             [Load ATOMIC_RELAXED (env (2 * n)),
              CmpXchg True ATOMIC_ACQUIRE ATOMIC_RELAXED
                (spin_expected (env (2 * n))) (spin_expected (env (2 * n)) + 1) True]\<rparr>)) \<and>
   failed_attempt a env j =
     [Load ATOMIC_RELAXED (env (2 * j)),
      CmpXchg True ATOMIC_ACQUIRE ATOMIC_RELAXED
        (spin_expected (env (2 * j))) (spin_expected (env (2 * j)) + 1) False]
     @ (if a = X86 then [Ia32Pause] else []) \<and>
   ((\<forall>j. \<not> cas_succeeds env spur j) \<longrightarrow> kroki_seqlock_write_lock_spin a env spur m = None)"
  using write_lock_spin_run [of n env spur a m] write_lock_spin_None [of env spur a m]
  by (simp add: spin_expected_even spin_expected_odd failed_attempt_def pause_events_def)

theorem write_lock_spin_attempts_witness:
  "\<not> cas_succeeds (\<lambda>k. if k < 3 then 1 else 2) (\<lambda>k. k = 3) 0 \<and>
   \<not> cas_succeeds (\<lambda>k. if k < 3 then 1 else 2) (\<lambda>k. k = 3) 1 \<and>
   cas_succeeds (\<lambda>k. if k < 3 then 1 else 2) (\<lambda>k. k = 3) 2 \<and>
   kroki_seqlock_write_lock_spin X86 (\<lambda>k. if k < 3 then 1 else 2) (\<lambda>k. k = 3)
       \<lparr>plock = 1, trace = []\<rparr> =
     Some (2, 6, \<lparr>plock = 3, trace =
        [Load ATOMIC_RELAXED 1, CmpXchg True ATOMIC_ACQUIRE ATOMIC_RELAXED 2 3 False, Ia32Pause,
         Load ATOMIC_RELAXED 1, CmpXchg True ATOMIC_ACQUIRE ATOMIC_RELAXED 2 3 False, Ia32Pause,
         Load ATOMIC_RELAXED 2, CmpXchg True ATOMIC_ACQUIRE ATOMIC_RELAXED 2 3 True]\<rparr>)"
proof -
  let ?env = "\<lambda>k::nat. if k < 3 then 1 else 2 :: kroki_seqlock_t"
  let ?spur = "\<lambda>k::nat. k = 3"
  have f: "\<forall>j<2. \<not> cas_succeeds ?env ?spur j"
    by (simp add: all_less_2 cas_succeeds_def spin_expected_def)
  have s: "cas_succeeds ?env ?spur 2"
    by (simp add: cas_succeeds_def spin_expected_def)
  from write_lock_spin_attempts [of 1 2 ?env ?spur X86 "\<lparr>plock = 1, trace = []\<rparr>" 0] f s
  show ?thesis
    by (simp add: failed_attempt_def pause_events_def spin_expected_def upt_0_2)
qed

text \<open>
  C5. \<^verbatim>\<open>write_lock\<close> on a counter that holds \<open>C\<close>, with no other writer: a relaxed load
  of \<open>C\<close>, a relaxed store of \<open>C + 1\<close>, a release store of \<open>C + 1\<close>, then the compiler
  barrier \<^verbatim>\<open>__atomic_signal_fence(__ATOMIC_ACQ_REL)\<close>. The only value written to the
  counter is \<open>C + 1\<close>, twice, and \<open>C + 1\<close> is odd when \<open>C\<close> is even.
\<close>

theorem write_lock_stores_odd_twice:
  "kroki_seqlock_write_lock \<lparr>plock = C, trace = t\<rparr> =
     (C, \<lparr>plock = C + 1,
          trace = t @ [Load ATOMIC_RELAXED C, Store ATOMIC_RELAXED (C + 1),
                       Store ATOMIC_RELEASE (C + 1), SignalFence ATOMIC_ACQ_REL]\<rparr>) \<and>
   stored (trace (snd (kroki_seqlock_write_lock \<lparr>plock = C, trace = []\<rparr>))) = [C + 1, C + 1] \<and>
   (even C \<longrightarrow> odd (C + 1))"
  by (simp add: write_lock_eq)

theorem write_lock_stores_odd_twice_witness:
  "even (6 :: kroki_seqlock_t) \<and> odd (6 + 1 :: kroki_seqlock_t) \<and>
   stored (trace (snd (kroki_seqlock_write_lock \<lparr>plock = 6, trace = []\<rparr>))) = [7, 7]"
  using write_lock_stores_odd_twice [of 6 "[]"] by simp

text \<open>
  C6. \<^verbatim>\<open>read_lock\<close> makes one load of the counter, with acquire ordering, and records
  the loaded value \<open>v\<close> with its lowest bit cleared, \<open>v & ~1\<close>. The function is total: it
  never waits. For every \<open>v\<close> the recorded value is even, it is \<open>v\<close> when \<open>v\<close> is even
  and \<open>v - 1\<close> when \<open>v\<close> is odd, and its bits are those of \<open>v\<close> except the bit 0.
\<close>

theorem read_lock_strips_low_bit:
  "kroki_seqlock_read_lock \<lparr>plock = v, trace = t\<rparr> =
     (v AND NOT 1, v, \<lparr>plock = v, trace = t @ [Load ATOMIC_ACQUIRE v]\<rparr>) \<and>
   even (fst (kroki_seqlock_read_lock \<lparr>plock = v, trace = t\<rparr>)) \<and>
   fst (kroki_seqlock_read_lock \<lparr>plock = v, trace = t\<rparr>) = (if even v then v else v - 1) \<and>
   bit (fst (kroki_seqlock_read_lock \<lparr>plock = v, trace = t\<rparr>)) n = (bit v n \<and> n \<noteq> 0)"
proof -
  have eq: "kroki_seqlock_read_lock \<lparr>plock = v, trace = t\<rparr> =
     (read_lock_baseline v, v, \<lparr>plock = v, trace = t @ [Load ATOMIC_ACQUIRE v]\<rparr>)"
    by (simp add: kroki_seqlock_read_lock_def read_lock_load_def atomic_load_n_def)
  show ?thesis
    unfolding eq fst_conv
    using even_read_lock_baseline [of v] read_lock_baseline_even [of v] read_lock_baseline_odd [of v]
      bit_and_not_1 [of v n]
    by (simp add: read_lock_baseline_def)
qed

text \<open>
  C1. Any number \<open>n\<close> of threads each run \<^verbatim>\<open>write_lock_spin\<close>, their writes and
  \<^verbatim>\<open>write_unlock\<close> on a counter that starts even, and their accesses to the counter
  interleave in any order \<open>sched\<close>, with any of the weak exchanges failing spuriously.
  In every state reached, at most one thread is inside its critical section (its exchange
  has succeeded and its unlocking store has not happened yet), and the counter is odd
  exactly when a thread is inside. The values written to the counter are \<open>c0 + 1\<close>,
  \<open>c0 + 2\<close>, \<open>c0 + 3\<close>, ... in this order: every write adds one. A write to an odd
  counter is the store of the one thread that is inside, and a write to an even counter
  is the exchange that puts the writing thread inside: each odd value is taken by one
  thread, and the next value of the counter is the next even value.
\<close>

theorem spin_writers_mutual_exclusion:
  assumes "even c0"
  shows "let c = run a sched (init c0 n) in
     length (threads c) = n \<and>
     length (holders (threads c)) \<le> 1 \<and>
     (odd (plock (shared c)) \<longleftrightarrow> holders (threads c) \<noteq> []) \<and>
     consecutive c0 (stored (trace (shared c))) \<and>
     (\<forall>i sp. plock (shared (step a (i, sp) c)) \<noteq> plock (shared c) \<longrightarrow>
        plock (shared (step a (i, sp) c)) = plock (shared c) + 1 \<and>
        (if odd (plock (shared c)) then holders (threads c) = [i]
         else holders (threads (step a (i, sp) c)) = [i]))"
proof -
  define c where "c = run a sched (init c0 n)"
  have inv: "mutex_inv c" unfolding c_def using assms by (simp add: inv_init inv_run)
  have cnt: "counted c0 c" unfolding c_def using assms by (simp add: inv_init counted_init counted_run)
  have len_run: "length (threads (run a sched d)) = length (threads d)" for d
    by (induction sched arbitrary: d) (simp_all add: run_def length_threads_step)
  have len: "length (threads c) = n" unfolding c_def len_run by (simp add: init_def)
  have one: "length (holders (threads c)) \<le> 1" using inv by (rule at_most_one_holder)
  have held: "odd (plock (shared c)) \<longleftrightarrow> holders (threads c) \<noteq> []" using inv by (rule odd_iff_held)
  have cons: "consecutive c0 (stored (trace (shared c)))" using cnt by (simp add: counted_def)
  have chg: "plock (shared (step a (i, sp) c)) = plock (shared c) + 1 \<and>
        (if odd (plock (shared c)) then holders (threads c) = [i]
         else holders (threads (step a (i, sp) c)) = [i])"
    if ne: "plock (shared (step a (i, sp) c)) \<noteq> plock (shared c)" for i sp
  proof -
    from step_effect [OF inv, of a i sp] ne
    have p: "plock (shared (step a (i, sp) c)) = plock (shared c) + 1"
      and i: "i < length (threads c)"
      and w: "if odd (plock (shared c)) then inside (threads c ! i)
            else pc (threads c ! i) = W_cas \<and> inside (threads (step a (i, sp) c) ! i)"
      by auto
    have "holders (threads c) = [i]" if "odd (plock (shared c))"
    proof -
      from that w i have "i \<in> set (holders (threads c))" by (simp add: set_holders)
      with one show ?thesis by (rule singleton_holder)
    qed
    moreover have "holders (threads (step a (i, sp) c)) = [i]" if "even (plock (shared c))"
    proof -
      from that w i have "i \<in> set (holders (threads (step a (i, sp) c)))"
        by (simp add: set_holders length_threads_step)
      moreover have "length (holders (threads (step a (i, sp) c))) \<le> 1"
        using inv_step [OF inv] by (rule at_most_one_holder)
      ultimately show ?thesis by (rule singleton_holder [rotated])
    qed
    ultimately show ?thesis using p by simp
  qed
  show ?thesis
    unfolding Let_def c_def [symmetric] using len one held cons chg by blast
qed

theorem spin_writers_mutual_exclusion_witness:
  "even (0 :: kroki_seqlock_t) \<and>
   run X86 [(0, False), (1, False), (1, False), (0, False), (1, False)] (init 0 2) =
     \<lparr>shared = \<lparr>plock = 2, trace =
         [Load ATOMIC_RELAXED 0, Load ATOMIC_RELAXED 0,
          CmpXchg True ATOMIC_ACQUIRE ATOMIC_RELAXED 0 1 True,
          CmpXchg True ATOMIC_ACQUIRE ATOMIC_RELAXED 0 1 False,
          Store ATOMIC_RELEASE 2]\<rparr>,
      threads = [\<lparr>pc = W_pause, seqlock_old = 1\<rparr>, \<lparr>pc = W_done, seqlock_old = 0\<rparr>]\<rparr> \<and>
   holders (threads (run X86 [(0, False), (1, False), (1, False)] (init 0 2))) = [1] \<and>
   length (holders (threads (run X86 [(0, False), (1, False), (1, False), (0, False)] (init 0 2)))) \<le> 1 \<and>
   consecutive 0 (stored (trace (shared
      (run X86 [(0, False), (1, False), (1, False), (0, False), (1, False)] (init 0 2)))))"
  using spin_writers_mutual_exclusion [of 0 X86 "[(0, False), (1, False), (1, False), (0, False), (1, False)]" 2]
    spin_writers_mutual_exclusion [of 0 X86 "[(0, False), (1, False), (1, False), (0, False)]" 2]
  by (simp add: Let_def run_def init_def step_def writer_step_def atomic_load_n_def
      atomic_compare_exchange_n_def kroki_seqlock_write_unlock_def atomic_store_n_def
      spin_expected_def holders_def inside_def numeral_2_eq_2)

text \<open>
  C4. \<^verbatim>\<open>read_unlock\<close> is the compiler barrier followed by two acquire loads of the
  counter; the value of the second load is compared with the recorded baseline. When they
  differ, the loop runs the caller's code again, with the baseline taken from that second
  value; when they are equal, the loop ends and gives the result that the caller's code
  produced in this last iteration. So a read section whose first \<open>n\<close> comparisons fail
  and whose next comparison passes runs the caller's code \<open>n + 1\<close> times and returns the
  last result; one whose comparisons all fail does not return.
\<close>

theorem read_unlock_retries_until_unchanged:
  "kroki_seqlock_read_unlock env k \<lparr>plock = c, trace = t\<rparr> =
     (env (k + 1),
      \<lparr>plock = env (k + 1),
       trace = t @ [SignalFence ATOMIC_ACQ_REL, Load ATOMIC_ACQUIRE (env k),
                    Load ATOMIC_ACQUIRE (env (k + 1))]\<rparr>) \<and>
   read_loop env body k i new \<lparr>plock = c, trace = t\<rparr> =
     (if read_lock_baseline new \<noteq> env (k + 1)
      then read_loop env body (k + 2) (i + 1) (env (k + 1))
             \<lparr>plock = env (k + 1),
              trace = t @ [Body (read_lock_baseline new), SignalFence ATOMIC_ACQ_REL,
                   Load ATOMIC_ACQUIRE (env k), Load ATOMIC_ACQUIRE (env (k + 1))]\<rparr>
      else Some (body i, i + 1, k + 2,
             \<lparr>plock = env (k + 1),
              trace = t @ [Body (read_lock_baseline new), SignalFence ATOMIC_ACQ_REL,
                   Load ATOMIC_ACQUIRE (env k), Load ATOMIC_ACQUIRE (env (k + 1))]\<rparr>)) \<and>
   ((\<forall>j<n. \<not> check_passes env j) \<and> check_passes env n \<longrightarrow>
      (\<exists>k m'. read_section env body m = Some (body n, n + 1, k, m'))) \<and>
   ((\<forall>j. \<not> check_passes env j) \<longrightarrow> read_section env body m = None)"
  using read_section_run [of n env body m] read_section_None [of env body m]
    read_loop_step [of env body k i new c t]
  by (simp add: kroki_seqlock_read_unlock_def atomic_signal_fence_def atomic_load_n_def
      at_access_def)

theorem read_unlock_retries_until_unchanged_witness:
  "\<not> check_passes (\<lambda>k. if k < 2 then 3 else 4) 0 \<and>
   check_passes (\<lambda>k. if k < 2 then 3 else 4) 1 \<and>
   (\<exists>k m'. read_section (\<lambda>k. if k < 2 then 3 else 4) (\<lambda>i. 10 + i) \<lparr>plock = 3, trace = []\<rparr>
     = Some (11 :: nat, 2, k, m'))"
proof -
  let ?env = "\<lambda>k::nat. if k < 2 then 3 else 4 :: kroki_seqlock_t"
  have f: "\<forall>j<1. \<not> check_passes ?env j"
    by (simp add: check_passes_def read_lock_baseline_def)
  have s: "check_passes ?env 1"
    by (simp add: check_passes_def read_lock_baseline_def)
  from read_unlock_retries_until_unchanged [of ?env 0 0 "[]" "\<lambda>i. 10 + i" 0 0 1 "\<lparr>plock = 3, trace = []\<rparr>"] f s
  have "\<exists>k m'. read_section ?env (\<lambda>i. 10 + i) \<lparr>plock = 3, trace = []\<rparr>
     = Some (10 + 1 :: nat, 1 + 1, k, m')"
    by blast
  with f s show ?thesis by (simp add: numeral_2_eq_2)
qed

text \<open>
  C7. When all three loads of a read section give the same even value \<open>c\<close> (no writer
  was at work during the section), the section ends in the first iteration: the caller's
  code has run exactly once, three loads were made, and the result is that of the only
  execution.
\<close>

theorem read_section_no_false_retry:
  assumes "even c" and "\<forall>k<3. env k = c"
  shows "read_section env body m =
     Some (body 0, 1, 3,
       \<lparr>plock = c,
        trace = trace m @ [Load ATOMIC_ACQUIRE c, Body c, SignalFence ATOMIC_ACQ_REL,
                           Load ATOMIC_ACQUIRE c, Load ATOMIC_ACQUIRE c]\<rparr>)"
proof -
  from assms(2) have e: "env 0 = c" "env (Suc 0) = c" "env (Suc (Suc 0)) = c" by simp_all
  have "check_passes env 0"
    using assms(1) by (simp add: check_passes_def e read_lock_baseline_even)
  from read_section_run [of 0 env body m, OF _ this] assms(1)
  show ?thesis by (simp add: e iteration_def read_lock_baseline_even)
qed

theorem read_section_no_false_retry_witness:
  "even (2 :: kroki_seqlock_t) \<and>
   read_section (\<lambda>k. 2) (\<lambda>i. 42 + i) \<lparr>plock = 2, trace = []\<rparr> =
     Some (42 :: nat, 1, 3,
       \<lparr>plock = 2,
        trace = [Load ATOMIC_ACQUIRE 2, Body 2, SignalFence ATOMIC_ACQ_REL,
                 Load ATOMIC_ACQUIRE 2, Load ATOMIC_ACQUIRE 2]\<rparr>)"
  using read_section_no_false_retry [of 2 "\<lambda>k. 2" "\<lambda>i. 42 + i" "\<lparr>plock = 2, trace = []\<rparr>"] by simp

text \<open>
  C8. The counter is a 32-bit unsigned integer. \<^verbatim>\<open>write_lock\<close> leaves it at the
  captured value plus 1 modulo \<open>2 ^ 32\<close>; so does the exchange of \<^verbatim>\<open>write_lock_spin\<close>
  when it succeeds, where the captured value is the value that the exchange found in the
  counter; \<^verbatim>\<open>write_unlock\<close> leaves it at the captured value plus 2 modulo \<open>2 ^ 32\<close>.
  A lock and unlock that do not pass \<open>2 ^ 32\<close> increase the counter at each step, and the
  counter can only become smaller when the addition wraps around. From \<open>2 ^ 32 - 2\<close> the
  lock and unlock leave the counter at 0, which is even.
\<close>

theorem counter_arithmetic_wraps:
  "unat (plock (snd (kroki_seqlock_write_lock \<lparr>plock = C, trace = t\<rparr>))) = (unat C + 1) mod 2 ^ 32 \<and>
   (kroki_seqlock_write_lock_spin a env spur m = Some (old, k, m') \<longrightarrow>
      env (k - 1) = old \<and> unat (plock m') = (unat old + 1) mod 2 ^ 32) \<and>
   unat (plock (kroki_seqlock_write_unlock old m)) = (unat old + 2) mod 2 ^ 32 \<and>
   (unat C + 2 < 2 ^ 32 \<longrightarrow>
      unat C < unat (plock (snd (kroki_seqlock_write_lock \<lparr>plock = C, trace = t\<rparr>))) \<and>
      unat (plock (snd (kroki_seqlock_write_lock \<lparr>plock = C, trace = t\<rparr>)))
        < unat (plock (write_section \<lparr>plock = C, trace = t\<rparr>))) \<and>
   (unat (plock (write_section \<lparr>plock = D, trace = t\<rparr>)) < unat D \<longrightarrow> 2 ^ 32 \<le> unat D + 2) \<and>
   plock (write_section \<lparr>plock = 2 ^ 32 - 2, trace = t\<rparr>) = 0 \<and>
   even (plock (write_section \<lparr>plock = 2 ^ 32 - 2, trace = t\<rparr>))"
proof -
  have spin: "env (k - 1) = old \<and> unat (plock m') = (unat old + 1) mod 2 ^ 32"
    if "kroki_seqlock_write_lock_spin a env spur m = Some (old, k, m')"
    using that
  proof (rule write_lock_spin_Some)
    fix n
    assume "cas_succeeds env spur n"
      and "(old, k, m') = (spin_expected (env (2 * n)), 2 * n + 2,
     \<lparr>plock = spin_expected (env (2 * n)) + 1,
      trace = trace m @ concat (map (failed_attempt a env) [0..<n]) @
        [Load ATOMIC_RELAXED (env (2 * n)),
         CmpXchg True ATOMIC_ACQUIRE ATOMIC_RELAXED
           (spin_expected (env (2 * n))) (spin_expected (env (2 * n)) + 1) True]\<rparr>)"
    then show ?thesis by (simp add: cas_succeeds_def unat_word_ariths)
  qed
  have mono: "unat C < unat (C + 1) \<and> unat (C + 1) < unat (C + 2)" if "unat C + 2 < 2 ^ 32"
    using that by (simp add: unat_word_ariths)
  have wrap: "2 ^ 32 \<le> unat D + 2" if "unat (D + 2) < unat D"
  proof (rule ccontr)
    assume "\<not> 2 ^ 32 \<le> unat D + 2"
    then have "unat (D + 2) = unat D + 2" by (simp add: unat_word_ariths)
    with that show False by simp
  qed
  show ?thesis
    using spin mono wrap
    by (simp add: write_lock_eq write_section_eq kroki_seqlock_write_unlock_def atomic_store_n_def
        unat_word_ariths)
qed

theorem counter_arithmetic_wraps_witness:
  "kroki_seqlock_write_lock_spin X86 (\<lambda>k. if k < 3 then 1 else 2) (\<lambda>k. k = 3)
       \<lparr>plock = 1, trace = []\<rparr> =
     Some (2, 6, \<lparr>plock = 3, trace =
        [Load ATOMIC_RELAXED 1, CmpXchg True ATOMIC_ACQUIRE ATOMIC_RELAXED 2 3 False, Ia32Pause,
         Load ATOMIC_RELAXED 1, CmpXchg True ATOMIC_ACQUIRE ATOMIC_RELAXED 2 3 False, Ia32Pause,
         Load ATOMIC_RELAXED 2, CmpXchg True ATOMIC_ACQUIRE ATOMIC_RELAXED 2 3 True]\<rparr>) \<and>
   unat (4 :: kroki_seqlock_t) + 2 < 2 ^ 32 \<and>
   unat (4 :: kroki_seqlock_t) < unat (plock (snd (kroki_seqlock_write_lock \<lparr>plock = 4, trace = []\<rparr>))) \<and>
   unat (plock (snd (kroki_seqlock_write_lock \<lparr>plock = 4, trace = []\<rparr>)))
     < unat (plock (write_section \<lparr>plock = 4, trace = []\<rparr>)) \<and>
   unat (plock (write_section \<lparr>plock = 4294967294, trace = []\<rparr>)) < unat (4294967294 :: kroki_seqlock_t) \<and>
   2 ^ 32 \<le> unat (4294967294 :: kroki_seqlock_t) + 2"
proof -
  let ?env = "\<lambda>k::nat. if k < 3 then 1 else 2 :: kroki_seqlock_t"
  let ?spur = "\<lambda>k::nat. k = 3"
  let ?m' = "\<lparr>plock = 3, trace =
        [Load ATOMIC_RELAXED 1, CmpXchg True ATOMIC_ACQUIRE ATOMIC_RELAXED 2 3 False, Ia32Pause,
         Load ATOMIC_RELAXED 1, CmpXchg True ATOMIC_ACQUIRE ATOMIC_RELAXED 2 3 False, Ia32Pause,
         Load ATOMIC_RELAXED 2, CmpXchg True ATOMIC_ACQUIRE ATOMIC_RELAXED 2 3 True]\<rparr>"
  have f: "\<forall>j<2. \<not> cas_succeeds ?env ?spur j"
    by (simp add: all_less_2 cas_succeeds_def spin_expected_def)
  have s: "cas_succeeds ?env ?spur 2"
    by (simp add: cas_succeeds_def spin_expected_def)
  have run: "kroki_seqlock_write_lock_spin X86 ?env ?spur \<lparr>plock = 1, trace = []\<rparr> = Some (2, 6, ?m')"
    using write_lock_spin_run [OF f s, of X86 "\<lparr>plock = 1, trace = []\<rparr>"]
    by (simp add: failed_attempt_def pause_events_def spin_expected_def upt_0_2)
  have w: "unat (plock (write_section \<lparr>plock = 4294967294, trace = []\<rparr>)) < unat (4294967294 :: kroki_seqlock_t)"
    by (simp add: write_section_eq)
  from counter_arithmetic_wraps [of 4 "[]" X86 ?env ?spur "\<lparr>plock = 1, trace = []\<rparr>" 2 6 ?m' 4294967294] run w
  show ?thesis by simp
qed

text \<open>
  C9. The read side never writes to the counter. \<^verbatim>\<open>read_lock\<close> leaves the counter as
  it is and logs no write; \<^verbatim>\<open>read_unlock\<close> logs no write, and leaves the counter as
  it is when no other thread changes it in between. A whole read section that returns,
  after any number of iterations, has logged no write, and the counter holds at the end
  what the other threads had put there at the section's last access.
\<close>

theorem read_side_never_stores:
  "plock (snd (snd (kroki_seqlock_read_lock m))) = plock m \<and>
   stored (trace (snd (snd (kroki_seqlock_read_lock m)))) = stored (trace m) \<and>
   stored (trace (snd (kroki_seqlock_read_unlock env k m))) = stored (trace m) \<and>
   (env k = plock m \<and> env (k + 1) = plock m \<longrightarrow>
      plock (snd (kroki_seqlock_read_unlock env k m)) = plock m) \<and>
   (read_section env body m = Some (r, its, k', m') \<longrightarrow>
      stored (trace m') = stored (trace m) \<and> plock m' = env (k' - 1))"
proof -
  have "stored (trace m') = stored (trace m) \<and> plock m' = env (k' - 1)"
    if "read_section env body m = Some (r, its, k', m')"
    using that by (rule read_section_Some) (simp add: stored_append stored_iterations iteration_def)
  then show ?thesis
    by (simp add: read_lock_eq read_unlock_eq stored_append)
qed

theorem read_side_never_stores_witness:
  "(\<lambda>k::nat. 2 :: kroki_seqlock_t) 1 = plock \<lparr>plock = 2, trace = []\<rparr> \<and>
   read_section (\<lambda>k. 2) (\<lambda>i. 42 + i) \<lparr>plock = 2, trace = []\<rparr> =
     Some (42 :: nat, 1, 3,
       \<lparr>plock = 2,
        trace = [Load ATOMIC_ACQUIRE 2, Body 2, SignalFence ATOMIC_ACQ_REL,
                 Load ATOMIC_ACQUIRE 2, Load ATOMIC_ACQUIRE 2]\<rparr>) \<and>
   plock (snd (kroki_seqlock_read_unlock (\<lambda>k. 2) 1 \<lparr>plock = 2, trace = []\<rparr>)) = 2 \<and>
   stored [Load ATOMIC_ACQUIRE 2, Body 2, SignalFence ATOMIC_ACQ_REL,
                 Load ATOMIC_ACQUIRE 2, Load ATOMIC_ACQUIRE 2] = []"
proof -
  have c: "check_passes (\<lambda>k. 2) 0"
    by (simp add: check_passes_def read_lock_baseline_def)
  have run: "read_section (\<lambda>k. 2) (\<lambda>i. 42 + i) \<lparr>plock = 2, trace = []\<rparr> =
     Some (42 :: nat, 1, 3,
       \<lparr>plock = 2,
        trace = [Load ATOMIC_ACQUIRE 2, Body 2, SignalFence ATOMIC_ACQ_REL,
                 Load ATOMIC_ACQUIRE 2, Load ATOMIC_ACQUIRE 2]\<rparr>)"
    using read_section_run [of 0 "\<lambda>k. 2" "\<lambda>i. 42 + i" "\<lparr>plock = 2, trace = []\<rparr>", OF _ c]
    by (simp add: iteration_def read_lock_baseline_def)
  from read_side_never_stores [of "\<lparr>plock = 2, trace = []\<rparr>" "\<lambda>k. 2" 1 "\<lambda>i. 42 + i" 42 1 3
       "\<lparr>plock = 2, trace = [Load ATOMIC_ACQUIRE 2, Body 2, SignalFence ATOMIC_ACQ_REL,
                 Load ATOMIC_ACQUIRE 2, Load ATOMIC_ACQUIRE 2]\<rparr>"] run
  show ?thesis by simp
qed

text \<open>
  C10. A read section that ends after \<open>n\<close> failed comparisons has made
  \<open>1 + 2 * (n + 1)\<close> loads for \<open>n + 1\<close> executions of the caller's code: one load in
  front of the loop and the two loads of \<^verbatim>\<open>read_unlock\<close> in each iteration. In the log,
  the caller's code of an iteration after the first comes directly after the second load
  of the iteration before, with no load in between, and it runs with the baseline
  computed from the value of that load with the lowest bit cleared.
\<close>

theorem read_retry_reuses_second_load:
  assumes "\<forall>j<n. \<not> check_passes env j" and "check_passes env n"
  shows "read_section env body m =
     Some (body n, n + 1, 1 + 2 * (n + 1),
       \<lparr>plock = env (2 * n + 2),
        trace = trace m @ Load ATOMIC_ACQUIRE (env 0) #
          concat (map (\<lambda>j. [Body (env (2 * j) AND NOT 1), SignalFence ATOMIC_ACQ_REL,
                            Load ATOMIC_ACQUIRE (env (2 * j + 1)),
                            Load ATOMIC_ACQUIRE (env (2 * j + 2))]) [0..<Suc n])\<rparr>)"
proof -
  have "iteration env = (\<lambda>j. [Body (env (2 * j) AND NOT 1), SignalFence ATOMIC_ACQ_REL,
                            Load ATOMIC_ACQUIRE (env (2 * j + 1)),
                            Load ATOMIC_ACQUIRE (env (2 * j + 2))])"
    by (rule ext) (simp add: iteration_def read_lock_baseline_def)
  with read_section_run [OF assms, of body m] show ?thesis by simp
qed

theorem read_retry_reuses_second_load_witness:
  "\<not> check_passes (\<lambda>k. if k < 2 then 3 else 4) 0 \<and>
   check_passes (\<lambda>k. if k < 2 then 3 else 4) 1 \<and>
   read_section (\<lambda>k. if k < 2 then 3 else 4) (\<lambda>i. 10 + i) \<lparr>plock = 3, trace = []\<rparr>
     = Some (11 :: nat, 2, 5,
         \<lparr>plock = 4,
          trace = [Load ATOMIC_ACQUIRE 3,
                   Body 2, SignalFence ATOMIC_ACQ_REL, Load ATOMIC_ACQUIRE 3, Load ATOMIC_ACQUIRE 4,
                   Body 4, SignalFence ATOMIC_ACQ_REL, Load ATOMIC_ACQUIRE 4, Load ATOMIC_ACQUIRE 4]\<rparr>)"
proof -
  let ?env = "\<lambda>k::nat. if k < 2 then 3 else 4 :: kroki_seqlock_t"
  have f: "\<forall>j<1. \<not> check_passes ?env j"
    by (simp add: check_passes_def read_lock_baseline_def)
  have s: "check_passes ?env 1"
    by (simp add: check_passes_def read_lock_baseline_def)
  from read_retry_reuses_second_load [OF f s, of "\<lambda>i. 10 + i" "\<lparr>plock = 3, trace = []\<rparr>"] f s
  show ?thesis by (simp add: upt_0_2)
qed

end
